theory Spec2Isabelle
  imports Main "HOL-Library.Word"
begin

unbundle bit_operations_syntax

section \<open>Python values and exceptions\<close>

text \<open>
  The exceptions that the functions of \<^verbatim>\<open>BUSlib.py\<close> can raise. \<open>ValueError\<close> comes
  from \<^verbatim>\<open>int(bs, 2)\<close> and from a negative shift count, \<open>StructError\<close> is
  \<^verbatim>\<open>struct.error\<close> (a buffer of the wrong size on unpack, an argument out of range on
  pack), \<open>FileNotFoundError\<close> comes from \<^verbatim>\<open>open\<close>. A raised exception is the value
  \<open>Inl e\<close>; the state reached before the raise is not kept.
\<close>

datatype error = ValueError | StructError | FileNotFoundError

text \<open>
  Python strings are modelled as \<open>string\<close>; a \<open>char\<close> stands for the code point with
  the same number, so the model covers the strings over code points below 256.
\<close>

text \<open>The slice \<^verbatim>\<open>s[:k]\<close>; a negative \<open>k\<close> counts from the end.\<close>

definition slice_to :: "'a list \<Rightarrow> int \<Rightarrow> 'a list" where
  "slice_to s k = (if 0 \<le> k then take (nat k) s else take (nat (int (length s) + k)) s)"

text \<open>\<^verbatim>\<open>s.replace(old, new)\<close> for a one-character \<open>old\<close>.\<close>

definition str_replace :: "string \<Rightarrow> char \<Rightarrow> string \<Rightarrow> string" where
  "str_replace s old new = concat (map (\<lambda>c. if c = old then new else [c]) s)"

subsection \<open>The literal grammar of \<^verbatim>\<open>int(str, 2)\<close>\<close>

text \<open>
  CPython's \<^verbatim>\<open>int(str, 2)\<close>: leading white space, an optional sign, an optional
  \<^verbatim>\<open>0b\<close> prefix (one underscore may follow it), a non-empty run of binary digits in which
  underscores stand singly between digits, trailing white space, and nothing else.
  Every other string, the empty one among them, raises ValueError.
\<close>

definition is_space :: "char \<Rightarrow> bool" where
  "is_space c = ((of_char c :: nat) \<in> {9, 10, 11, 12, 13, 32, 133, 160})"

definition is_bin_digit :: "char \<Rightarrow> bool" where
  "is_bin_digit c = (c = CHR ''0'' \<or> c = CHR ''1'')"

definition digit_val :: "char \<Rightarrow> int" where
  "digit_val c = (if c = CHR ''1'' then 1 else 0)"

definition in_literal :: "char \<Rightarrow> bool" where
  "in_literal c = (is_bin_digit c \<or> c = CHR ''_'')"

fun double_underscore :: "string \<Rightarrow> bool" where
  "double_underscore (a # b # r) = ((a = CHR ''_'' \<and> b = CHR ''_'') \<or> double_underscore (b # r))"
| "double_underscore r = False"

definition skip_sign :: "string \<Rightarrow> int \<times> string" where
  "skip_sign s =
     (case s of
        [] \<Rightarrow> (1, s)
      | c # r \<Rightarrow> if c = CHR ''+'' then (1, r) else if c = CHR ''-'' then (- 1, r) else (1, s))"

definition skip_prefix :: "string \<Rightarrow> string" where
  "skip_prefix s =
     (case s of
        a # b # r \<Rightarrow>
          if a = CHR ''0'' \<and> (b = CHR ''b'' \<or> b = CHR ''B'')
          then (case r of u # r' \<Rightarrow> if u = CHR ''_'' then r' else r | [] \<Rightarrow> r)
          else s
      | _ \<Rightarrow> s)"

definition bin_value :: "string \<Rightarrow> int" where
  "bin_value ds = foldl (\<lambda>a c. 2 * a + digit_val c) 0 ds"

definition int_base2 :: "string \<Rightarrow> error + int" where
  "int_base2 str =
     (let (sign, s2) = skip_sign (dropWhile is_space str);
          s3 = skip_prefix s2;
          body = takeWhile in_literal s3;
          rest = dropWhile in_literal s3
      in if body = [] \<or> hd body = CHR ''_'' \<or> last body = CHR ''_'' \<or> double_underscore body
            \<or> dropWhile is_space rest \<noteq> []
         then Inl ValueError
         else Inr (sign * bin_value (filter is_bin_digit body)))"

section \<open>Nucleotide codec\<close>

text \<open>
  \<^verbatim>\<open>stringToBinary(s, length)\<close>: the slice \<^verbatim>\<open>s[:length]\<close>, the four replacements in
  the order of the source, then \<^verbatim>\<open>int(bs, 2)\<close>. The parameter \<^verbatim>\<open>formating\<close> is never
  read by the body and is left out.
\<close>

definition stringToBinary :: "string \<Rightarrow> int \<Rightarrow> error + int" where
  "stringToBinary s len =
     (let bs = str_replace (str_replace (str_replace (str_replace (slice_to s len)
                 (CHR ''A'') ''00'') (CHR ''C'') ''01'') (CHR ''G'') ''10'') (CHR ''T'') ''11''
      in int_base2 bs)"

text \<open>
  The body of the loop of \<^verbatim>\<open>binaryToString\<close>: the \<^verbatim>\<open>if/elif\<close> chain on
  \<^verbatim>\<open>(x >> (2 * sh)) & 0x03\<close>, with \<^verbatim>\<open>"N"\<close> kept when no branch is taken.
\<close>

definition pick_char :: "int \<Rightarrow> nat \<Rightarrow> char" where
  "pick_char x k =
     (if drop_bit k x AND 3 = 0 then CHR ''A''
      else if drop_bit k x AND 3 = 1 then CHR ''C''
      else if drop_bit k x AND 3 = 2 then CHR ''G''
      else if drop_bit k x AND 3 = 3 then CHR ''T''
      else CHR ''N'')"

text \<open>
  The \<^verbatim>\<open>for i in range(length)\<close> loop, over the list of indices still to visit, with the
  state \<open>(s, sh)\<close>. Python raises ValueError on a shift by a negative count.
\<close>

fun bts_loop :: "int \<Rightarrow> nat list \<Rightarrow> string \<times> int \<Rightarrow> error + string \<times> int" where
  "bts_loop x [] (s, sh) = Inr (s, sh)"
| "bts_loop x (i # is) (s, sh) =
     (if 2 * sh < 0 then Inl ValueError
      else bts_loop x is (s[i := pick_char x (nat (2 * sh))], sh - 1))"

definition binaryToString :: "int \<Rightarrow> int \<Rightarrow> error + string" where
  "binaryToString x len =
     (case bts_loop x [0..<nat len] (replicate (nat len) (CHR ''N''), len - 1) of
        Inl e \<Rightarrow> Inl e
      | Inr (s, sh) \<Rightarrow> Inr s)"


section \<open>Binary layout: \<^verbatim>\<open>struct\<close> with little-endian unsigned fields\<close>

type_synonym byte = "8 word"

text \<open>The \<open>n\<close> little-endian bytes of \<open>v\<close>, and the unsigned value of a byte string.\<close>

fun le_bytes :: "nat \<Rightarrow> int \<Rightarrow> byte list" where
  "le_bytes 0 v = []"
| "le_bytes (Suc n) v = word_of_int v # le_bytes n (v div 256)"

fun le_int :: "byte list \<Rightarrow> int" where
  "le_int [] = 0"
| "le_int (b # bs) = uint b + 256 * le_int bs"

text \<open>
  One unsigned field of \<^verbatim>\<open>struct.pack\<close> (\<^verbatim>\<open>I\<close>: 4 bytes, \<^verbatim>\<open>Q\<close>: 8 bytes): an
  argument outside the range of the field raises \<^verbatim>\<open>struct.error\<close>.
\<close>

definition pack_uint :: "nat \<Rightarrow> int \<Rightarrow> error + byte list" where
  "pack_uint n v = (if 0 \<le> v \<and> v < 2 ^ (8 * n) then Inr (le_bytes n v) else Inl StructError)"

fun pack_fields :: "(nat \<times> int) list \<Rightarrow> error + byte list" where
  "pack_fields [] = Inr []"
| "pack_fields ((n, v) # r) =
     (case pack_uint n v of
        Inl e \<Rightarrow> Inl e
      | Inr b \<Rightarrow> (case pack_fields r of Inl e \<Rightarrow> Inl e | Inr bs \<Rightarrow> Inr (b @ bs)))"

text \<open>\<^verbatim>\<open>struct.pack('<IIII', a, b, c, d)\<close> and \<^verbatim>\<open>struct.pack('<QQIIII', ...)\<close>.\<close>

definition pack_IIII :: "int \<Rightarrow> int \<Rightarrow> int \<Rightarrow> int \<Rightarrow> error + byte list" where
  "pack_IIII a b c d = pack_fields [(4, a), (4, b), (4, c), (4, d)]"

definition pack_QQIIII :: "int \<Rightarrow> int \<Rightarrow> int \<Rightarrow> int \<Rightarrow> int \<Rightarrow> int \<Rightarrow> error + byte list" where
  "pack_QQIIII bc umi ec num flag pad =
     pack_fields [(8, bc), (8, umi), (4, ec), (4, num), (4, flag), (4, pad)]"

text \<open>
  \<^verbatim>\<open>struct.unpack\<close> raises \<^verbatim>\<open>struct.error\<close> unless the buffer has exactly the size of
  the format: 16 bytes for \<^verbatim>\<open><IIII\<close>, 32 for \<^verbatim>\<open><QQIIII\<close>, \<open>n\<close> for
  \<^verbatim>\<open><ns\<close>.
\<close>

definition unpack_s :: "int \<Rightarrow> byte list \<Rightarrow> error + byte list" where
  "unpack_s n b = (if int (length b) = n then Inr b else Inl StructError)"

definition unpack_IIII :: "byte list \<Rightarrow> error + int \<times> int \<times> int \<times> int" where
  "unpack_IIII b =
     (if length b = 16
      then Inr (le_int (take 4 b), le_int (take 4 (drop 4 b)), le_int (take 4 (drop 8 b)),
                le_int (take 4 (drop 12 b)))
      else Inl StructError)"

definition unpack_QQIIII :: "byte list \<Rightarrow> error + int \<times> int \<times> int \<times> int \<times> int \<times> int" where
  "unpack_QQIIII b =
     (if length b = 32
      then Inr (le_int (take 8 b), le_int (take 8 (drop 8 b)), le_int (take 4 (drop 16 b)),
                le_int (take 4 (drop 20 b)), le_int (take 4 (drop 24 b)),
                le_int (take 4 (drop 28 b)))
      else Inl StructError)"

text \<open>
  A binary stream open for reading is the list of the bytes not yet read;
  \<^verbatim>\<open>inf.read(k)\<close> returns at most \<open>k\<close> bytes and the stream after them (everything
  when \<open>k\<close> is negative).
\<close>

definition read_bytes :: "int \<Rightarrow> byte list \<Rightarrow> byte list \<times> byte list" where
  "read_bytes k inp = (if k < 0 then (inp, []) else (take (nat k) inp, drop (nat k) inp))"

text \<open>\<^verbatim>\<open>str.encode()\<close> (UTF-8) on code points below 256.\<close>

definition encode_utf8 :: "string \<Rightarrow> byte list" where
  "encode_utf8 s =
     concat (map (\<lambda>c. let n = (of_char c :: nat)
                       in if n < 128 then [of_nat n]
                          else [of_nat (192 + n div 64), of_nat (128 + n mod 64)]) s)"

section \<open>The BUS container\<close>

text \<open>
  The attribute \<^verbatim>\<open>text\<close> (here \<open>text_attr\<close>, as \<open>text\<close> is a reserved word) holds
  a \<^verbatim>\<open>str\<close> after \<^verbatim>\<open>__init__\<close> and \<^verbatim>\<open>bytes\<close> after a read; \<^verbatim>\<open>format\<close>
  holds the empty \<^verbatim>\<open>str\<close>, \<^verbatim>\<open>'BUS'\<close> or the raw magic bytes. A \<^verbatim>\<open>str\<close> is never
  equal to a \<^verbatim>\<open>bytes\<close> value.
\<close>

datatype pyval = Str string | Bytes "byte list"

type_synonym entry = "int \<times> int \<times> int \<times> int"

text \<open>
  The dictionary \<^verbatim>\<open>bcd\<close> keeps its keys in insertion order (\<^verbatim>\<open>writeBUS\<close> iterates
  over it), so it is an association list with the keys in that order.
\<close>

type_synonym bcdict = "(int \<times> entry list) list"

fun dict_set :: "'k \<Rightarrow> 'v \<Rightarrow> ('k \<times> 'v) list \<Rightarrow> ('k \<times> 'v) list" where
  "dict_set k v [] = [(k, v)]"
| "dict_set k v ((k', v') # d) = (if k' = k then (k, v) # d else (k', v') # dict_set k v d)"

record BUSFIle =
  text_attr :: pyval
  bcd :: bcdict
  version :: int
  bclen :: int
  umilen :: int
  textlen :: int
  n_entries :: int
  format :: pyval
  in_file_path :: "string option"
  out_file_path :: "string option"

definition BUSFORMAT_VERSION :: int where
  "BUSFORMAT_VERSION = 1"

text \<open>The literal \<^verbatim>\<open>b"BUS\x00"\<close>.\<close>

definition BUS_magic :: "byte list" where
  "BUS_magic = [66, 85, 83, 0]"

text \<open>\<^verbatim>\<open>__init__\<close>; the two path attributes do not exist yet.\<close>

definition BUSFIle_init :: BUSFIle where
  "BUSFIle_init =
     \<lparr>text_attr = Str [], bcd = [], version = 0, bclen = 0, umilen = 0, textlen = 0,
      n_entries = 0, format = Str [], in_file_path = None, out_file_path = None\<rparr>"

text \<open>What a call leaves behind besides its result: a warning, a printed line.\<close>

datatype event = VersionWarning | PrintNotImplemented pyval

text \<open>
  \<^verbatim>\<open>parseHeader\<close>, on the instance and the stream; it returns the instance, the stream
  after the header and the warnings.
\<close>

definition parseHeader :: "BUSFIle \<Rightarrow> byte list \<Rightarrow> error + BUSFIle \<times> byte list \<times> event list" where
  "parseHeader self inp =
     (let (m, inp1) = read_bytes 4 inp
      in case unpack_s 4 m of
           Inl e \<Rightarrow> Inl e
         | Inr magic \<Rightarrow>
             if magic = BUS_magic
             then
               (let self1 = self\<lparr>format := Str ''BUS''\<rparr>;
                    (h, inp2) = read_bytes 16 inp1
                in case unpack_IIII h of
                     Inl e \<Rightarrow> Inl e
                   | Inr (v, bl, ul, tlen) \<Rightarrow>
                       (let self2 = self1\<lparr>version := v, bclen := bl, umilen := ul, textlen := tlen\<rparr>;
                            ev = (if version self2 \<noteq> BUSFORMAT_VERSION then [VersionWarning] else []);
                            (t, inp3) = read_bytes (textlen self2) inp2
                        in case unpack_s (textlen self2) t of
                             Inl e \<Rightarrow> Inl e
                           | Inr txt \<Rightarrow> Inr (self2\<lparr>text_attr := Bytes txt\<rparr>, inp3, ev)))
             else Inr (self\<lparr>format := Bytes magic\<rparr>, inp1, []))"

text \<open>
  The \<^verbatim>\<open>try/except KeyError\<close> of \<^verbatim>\<open>parseBUS\<close>: append to the list stored under
  \<open>bc\<close>, or store a new one-element list when the key is missing.
\<close>

definition add_entry :: "bcdict \<Rightarrow> int \<Rightarrow> entry \<Rightarrow> bcdict" where
  "add_entry d bc t =
     (case map_of d bc of
        Some vs \<Rightarrow> dict_set bc (vs @ [t]) d
      | None \<Rightarrow> dict_set bc [t] d)"

text \<open>
  The \<^verbatim>\<open>while b:\<close> loop of \<^verbatim>\<open>parseBUS\<close>, with the block \<open>b\<close> read last, the instance
  and the stream.
\<close>

function parseBUS_loop :: "byte list \<Rightarrow> BUSFIle \<Rightarrow> byte list \<Rightarrow> error + BUSFIle \<times> byte list" where
  "parseBUS_loop b self inp =
     (if b = [] then Inr (self, inp)
      else case unpack_QQIIII b of
             Inl e \<Rightarrow> Inl e
           | Inr (bc, umi, ec, num, flag, pad) \<Rightarrow>
               (let (b', inp') = read_bytes 32 inp;
                    self1 = self\<lparr>n_entries := n_entries self + 1\<rparr>;
                    self2 = self1\<lparr>bcd := add_entry (bcd self1) bc (umi, ec, num, flag)\<rparr>
                in parseBUS_loop b' self2 inp'))"
  by pat_completeness auto
termination
  by (relation "measure (\<lambda>(b, self, inp). length b + length inp)")
     (auto simp: read_bytes_def min_def)

definition parseBUS :: "BUSFIle \<Rightarrow> byte list \<Rightarrow> error + BUSFIle \<times> byte list" where
  "parseBUS self inp =
     (let (b, inp1) = read_bytes 32 inp;
          self1 = self\<lparr>n_entries := n_entries self + 1\<rparr>
      in parseBUS_loop b self1 inp1)"

text \<open>
  A file system maps a path to the content of the file. The class method \<^verbatim>\<open>read\<close>
  (here \<open>BUSFIle_read\<close>, as \<open>BUSFIle_write\<close> stands for \<^verbatim>\<open>write\<close>, a reserved
  word) returns the instance and what was warned and printed. Opening a path that is not
  in the file system raises.
\<close>

type_synonym fs = "string \<rightharpoonup> byte list"

definition BUSFIle_read :: "fs \<Rightarrow> string \<Rightarrow> error + BUSFIle \<times> event list" where
  "BUSFIle_read files in_file =
     (let instance = BUSFIle_init\<lparr>in_file_path := Some in_file\<rparr>
      in case files in_file of
           None \<Rightarrow> Inl FileNotFoundError
         | Some inp \<Rightarrow>
             (case parseHeader instance inp of
                Inl e \<Rightarrow> Inl e
              | Inr (instance1, inp1, ev) \<Rightarrow>
                  if format instance1 = Str ''BUS''
                  then (case parseBUS instance1 inp1 of
                          Inl e \<Rightarrow> Inl e
                        | Inr (instance2, inp2) \<Rightarrow> Inr (instance2, ev))
                  else Inr (instance1, ev @ [PrintNotImplemented (format instance1)])))"

text \<open>
  A stream open for writing is the list of the bytes written so far.
  \<^verbatim>\<open>writeHeader\<close>: \<^verbatim>\<open>text.encode()\<close> for a \<^verbatim>\<open>str\<close>, the value itself for
  \<^verbatim>\<open>bytes\<close> (the \<^verbatim>\<open>AttributeError\<close> branch).
\<close>

definition text_bytes :: "pyval \<Rightarrow> byte list" where
  "text_bytes t = (case t of Str s \<Rightarrow> encode_utf8 s | Bytes b \<Rightarrow> b)"

definition writeHeader :: "BUSFIle \<Rightarrow> byte list \<Rightarrow> error + byte list" where
  "writeHeader self outf =
     (let tb = text_bytes (text_attr self);
          outf1 = outf @ BUS_magic
      in case pack_IIII (version self) (bclen self) (umilen self) (int (length tb)) of
           Inl e \<Rightarrow> Inl e
         | Inr h \<Rightarrow> Inr ((outf1 @ h) @ tb))"

text \<open>The two nested loops of \<^verbatim>\<open>writeBUS\<close>.\<close>

fun write_tuples :: "int \<Rightarrow> entry list \<Rightarrow> byte list \<Rightarrow> error + byte list" where
  "write_tuples bc [] outf = Inr outf"
| "write_tuples bc ((umi, ec, num, flag) # value) outf =
     (case pack_QQIIII bc umi ec num flag 0 of
        Inl e \<Rightarrow> Inl e
      | Inr block \<Rightarrow> write_tuples bc value (outf @ block))"

fun write_items :: "bcdict \<Rightarrow> byte list \<Rightarrow> error + byte list" where
  "write_items [] outf = Inr outf"
| "write_items ((bc, value) # items) outf =
     (case write_tuples bc value outf of
        Inl e \<Rightarrow> Inl e
      | Inr outf1 \<Rightarrow> write_items items outf1)"

text \<open>\<^verbatim>\<open>not sort_key\<close> holds for \<^verbatim>\<open>None\<close> and for the empty string.\<close>

definition writeBUS :: "BUSFIle \<Rightarrow> byte list \<Rightarrow> string option \<Rightarrow> error + byte list" where
  "writeBUS self outf sort_key_arg =
     (if sort_key_arg = None \<or> sort_key_arg = Some [] then write_items (bcd self) outf else Inr outf)"

text \<open>
  \<^verbatim>\<open>write\<close>: the file is opened with mode \<^verbatim>\<open>'wb'\<close>, so its content is what the call
  writes.
\<close>

definition BUSFIle_write :: "fs \<Rightarrow> BUSFIle \<Rightarrow> string \<Rightarrow> string \<Rightarrow> error + fs \<times> BUSFIle" where
  "BUSFIle_write files self outf formating =
     (let self1 = self\<lparr>out_file_path := Some outf\<rparr>
      in case writeHeader self1 [] of
           Inl e \<Rightarrow> Inl e
         | Inr fout \<Rightarrow>
             if formating = ''BUS''
             then (case writeBUS self1 fout None of
                     Inl e \<Rightarrow> Inl e
                   | Inr fout1 \<Rightarrow> Inr (files(outf \<mapsto> fout1), self1))
             else Inr (files(outf \<mapsto> fout), self1))"

section \<open>Notions used in the statements and proofs\<close>

text \<open>
  The two-bit code of a nucleotide and its inverse, the bits that the four replacements
  put in place of a character, the value of a string read in base 4, and the \<open>n\<close>
  lowest base-4 digits of an integer written as nucleotides, most significant first.
\<close>


definition nuc_of :: "int \<Rightarrow> char" where
  "nuc_of d = (if d = 0 then CHR ''A'' else if d = 1 then CHR ''C'' else if d = 2 then CHR ''G'' else CHR ''T'')"

definition code_of :: "char \<Rightarrow> int" where
  "code_of c = (if c = CHR ''A'' then 0 else if c = CHR ''C'' then 1 else if c = CHR ''G'' then 2 else 3)"

definition bits_of :: "char \<Rightarrow> string" where
  "bits_of c = (if c = CHR ''A'' then ''00'' else if c = CHR ''C'' then ''01''
                else if c = CHR ''G'' then ''10'' else if c = CHR ''T'' then ''11'' else [c])"

definition quat_value :: "string \<Rightarrow> int" where
  "quat_value s = foldl (\<lambda>a c. 4 * a + code_of c) 0 s"

fun dna :: "nat \<Rightarrow> int \<Rightarrow> string" where
  "dna 0 x = []"
| "dna (Suc n) x = dna n (x div 4) @ [nuc_of (x mod 4)]"

definition is_dna :: "string \<Rightarrow> bool" where
  "is_dna s = (set s \<subseteq> {CHR ''A'', CHR ''C'', CHR ''G'', CHR ''T''})"

definition all_bits :: "string \<Rightarrow> bool" where
  "all_bits bs = (\<forall>c \<in> set bs. is_bin_digit c)"

text \<open>
  The ranges of the unsigned fields, a record as it lies in the file (barcode, umi,
  equivalence class, count, flag, padding) with its 32 bytes, and the key and the tuple
  that \<^verbatim>\<open>parseBUS\<close> takes from a block of 32 bytes.
\<close>

definition u32 :: "int \<Rightarrow> bool" where
  "u32 v = (0 \<le> v \<and> v < 2 ^ 32)"

definition u64 :: "int \<Rightarrow> bool" where
  "u64 v = (0 \<le> v \<and> v < 2 ^ 64)"

type_synonym wire_record = "int \<times> int \<times> int \<times> int \<times> int \<times> int"

definition well_formed_record :: "wire_record \<Rightarrow> bool" where
  "well_formed_record r =
     (case r of (bc, umi, ec, num, flag, pad) \<Rightarrow>
        u64 bc \<and> u64 umi \<and> u32 ec \<and> u32 num \<and> u32 flag \<and> u32 pad)"

definition record_block :: "wire_record \<Rightarrow> byte list" where
  "record_block r =
     (case r of (bc, umi, ec, num, flag, pad) \<Rightarrow>
        le_bytes 8 bc @ le_bytes 8 umi @ le_bytes 4 ec @ le_bytes 4 num @ le_bytes 4 flag
        @ le_bytes 4 pad)"

definition record_key :: "wire_record \<Rightarrow> int" where
  "record_key r = (case r of (bc, umi, ec, num, flag, pad) \<Rightarrow> bc)"

definition record_entry :: "wire_record \<Rightarrow> entry" where
  "record_entry r = (case r of (bc, umi, ec, num, flag, pad) \<Rightarrow> (umi, ec, num, flag))"

definition decode_block :: "byte list \<Rightarrow> int \<times> entry" where
  "decode_block b =
     (le_int (take 8 b), le_int (take 8 (drop 8 b)), le_int (take 4 (drop 16 b)),
      le_int (take 4 (drop 20 b)), le_int (take 4 (drop 24 b)))"

definition add_all :: "bcdict \<Rightarrow> (int \<times> entry) list \<Rightarrow> bcdict" where
  "add_all d es = foldl (\<lambda>d e. add_entry d (fst e) (snd e)) d es"

definition lookup_list :: "bcdict \<Rightarrow> int \<Rightarrow> entry list" where
  "lookup_list d b = (case map_of d b of None \<Rightarrow> [] | Some vs \<Rightarrow> vs)"

text \<open>
  The little-endian unsigned 32-bit layout in the words of the format description: the
  four bytes of \<open>v\<close>, lowest first. It is compared below with what
  \<^verbatim>\<open>struct.pack\<close> writes.
\<close>

definition u32_le :: "int \<Rightarrow> byte list" where
  "u32_le v = [word_of_int v, word_of_int (v div 2 ^ 8), word_of_int (v div 2 ^ 16),
               word_of_int (v div 2 ^ 24)]"

text \<open>
  The record that \<^verbatim>\<open>writeBUS\<close> packs for a tuple stored under a barcode, the records
  of a whole dictionary in the order of the two loops, and a write to a path followed by
  a read of that path.
\<close>

definition entry_record :: "int \<Rightarrow> entry \<Rightarrow> wire_record" where
  "entry_record bc t = (case t of (umi, ec, num, flag) \<Rightarrow> (bc, umi, ec, num, flag, 0))"

definition dict_records :: "bcdict \<Rightarrow> wire_record list" where
  "dict_records d = concat (map (\<lambda>(bc, vs). map (entry_record bc) vs) d)"

definition write_then_read :: "fs \<Rightarrow> BUSFIle \<Rightarrow> string \<Rightarrow> error + BUSFIle \<times> event list" where
  "write_then_read files self p =
     (case BUSFIle_write files self p ''BUS'' of
        Inl e \<Rightarrow> Inl e
      | Inr (files', self') \<Rightarrow> BUSFIle_read files' p)"

section \<open>The decoder and the encoder in closed form\<close>

lemma and_3_mod: "(x::int) AND 3 = x mod 4"
proof -
  have "(3::int) = mask 2" by (simp add: mask_eq_exp_minus_1)
  then have "x AND 3 = take_bit 2 x" by (simp add: take_bit_eq_mask)
  then show ?thesis by (simp add: take_bit_eq_mod)
qed

lemma pick_char_nuc: "pick_char x k = nuc_of ((x div 2 ^ k) mod 4)"
proof -
  have "0 \<le> (x div 2 ^ k) mod 4" "(x div 2 ^ k) mod 4 < 4" by simp_all
  then show ?thesis
    unfolding pick_char_def nuc_of_def and_3_mod drop_bit_eq_div by auto
qed

lemma bts_loop_run:
  "k \<le> n \<Longrightarrow> length s = n \<Longrightarrow>
   bts_loop x [k..<n] (s, int n - 1 - int k) =
     Inr (take k s @ map (\<lambda>i. pick_char x (2 * (n - 1 - i))) [k..<n], - 1)"
proof (induction "n - k" arbitrary: k s)
  case 0
  then show ?case by simp
next
  case (Suc m)
  then have kn: "k < n" by simp
  have sh: "int n - 1 - int k - 1 = int n - 1 - int (Suc k)" by simp
  have nn: "nat (2 * (int n - 1 - int k)) = 2 * (n - 1 - k)" using kn by (simp add: nat_mult_distrib)
  have pos: "\<not> 2 * (int n - 1 - int k) < 0" using kn by simp
  have IH: "bts_loop x [Suc k..<n] (s[k := pick_char x (2 * (n - 1 - k))], int n - 1 - int (Suc k))
     = Inr (take (Suc k) (s[k := pick_char x (2 * (n - 1 - k))]) @ map (\<lambda>i. pick_char x (2 * (n - 1 - i))) [Suc k..<n], - 1)"
    using Suc.hyps(1)[of "Suc k" "s[k := pick_char x (2 * (n - 1 - k))]"] Suc.hyps(2) Suc.prems kn by simp
  have tk: "take (Suc k) (s[k := c]) = take k s @ [c]" for c
    using kn Suc.prems(2) by (simp add: take_Suc_conv_app_nth)
  have "bts_loop x [k..<n] (s, int n - 1 - int k)
      = bts_loop x (k # [Suc k..<n]) (s, int n - 1 - int k)"
    using kn by (simp only: upt_conv_Cons)
  also have "\<dots> = bts_loop x [Suc k..<n]
      (s[k := pick_char x (nat (2 * (int n - 1 - int k)))], int n - 1 - int k - 1)"
    using pos by (simp only: bts_loop.simps if_False)
  also have "\<dots> = Inr (take (Suc k) (s[k := pick_char x (2 * (n - 1 - k))])
      @ map (\<lambda>i. pick_char x (2 * (n - 1 - i))) [Suc k..<n], - 1)"
    by (simp only: nn sh IH)
  also have "\<dots> = Inr (take k s @ map (\<lambda>i. pick_char x (2 * (n - 1 - i))) [k..<n], - 1)"
    using kn by (simp only: tk upt_conv_Cons list.map append_assoc append_Cons append_Nil)
  finally show ?case .
qed

lemma binaryToString_map:
  "binaryToString x (int n) = Inr (map (\<lambda>i. pick_char x (2 * (n - 1 - i))) [0..<n])"
  using bts_loop_run[of 0 n "replicate n (CHR ''N'')" x]
  by (simp add: binaryToString_def)

lemma pick_char_shift: "pick_char x (2 * Suc k) = pick_char (x div 4) (2 * k)"
proof -
  have "x div 2 ^ (2 * Suc k) = x div 4 div 2 ^ (2 * k)"
    by (simp add: zdiv_zmult2_eq)
  then show ?thesis by (simp only: pick_char_nuc)
qed

lemma map_pick_dna: "map (\<lambda>i. pick_char x (2 * (n - 1 - i))) [0..<n] = dna n x"
proof (induction n arbitrary: x)
  case 0
  then show ?case by simp
next
  case (Suc n)
  have "map (\<lambda>i. pick_char x (2 * (Suc n - 1 - i))) [0..<n] = map (\<lambda>i. pick_char (x div 4) (2 * (n - 1 - i))) [0..<n]"
  proof (rule map_cong[OF refl])
    fix i assume "i \<in> set [0..<n]"
    then have "Suc n - 1 - i = Suc (n - 1 - i)" by auto
    then show "pick_char x (2 * (Suc n - 1 - i)) = pick_char (x div 4) (2 * (n - 1 - i))"
      by (simp only: pick_char_shift)
  qed
  then have "map (\<lambda>i. pick_char x (2 * (Suc n - 1 - i))) [0..<n] = dna n (x div 4)"
    by (simp only: Suc.IH)
  moreover have "pick_char x (2 * (Suc n - 1 - n)) = nuc_of (x mod 4)"
    by (simp add: pick_char_nuc)
  ultimately show ?case by (simp del: diff_Suc_1)
qed

lemma binaryToString_dna: "binaryToString x (int n) = Inr (dna n x)"
  by (simp only: binaryToString_map map_pick_dna)

lemma length_dna: "length (dna n x) = n"
  by (induction n arbitrary: x) simp_all

lemma nuc_of_dna: "nuc_of d \<in> {CHR ''A'', CHR ''C'', CHR ''G'', CHR ''T''}"
  by (simp add: nuc_of_def)

lemma is_dna_dna: "is_dna (dna n x)"
  by (induction n arbitrary: x) (simp_all add: is_dna_def nuc_of_def)

lemma dna_mod: "dna n (x mod 4 ^ n) = dna n x"
proof (induction n arbitrary: x)
  case 0
  then show ?case by simp
next
  case (Suc n)
  have "x mod 4 ^ Suc n = 4 * (x div 4 mod 4 ^ n) + x mod 4"
    by (simp add: zmod_zmult2_eq)
  then have a: "x mod 4 ^ Suc n div 4 = (x div 4) mod 4 ^ n"
    by simp
  have b: "x mod 4 ^ Suc n mod 4 = x mod 4"
    by (simp add: mod_mod_cancel)
  show ?case using Suc.IH[of "x div 4"] by (simp only: dna.simps a b)
qed


lemma slice_to_nat: "slice_to s (int n) = take n s"
  by (simp add: slice_to_def)

lemma str_replace_Nil: "str_replace [] old new = []"
  by (simp add: str_replace_def)

lemma str_replace_Cons:
  "str_replace (c # s) old new = (if c = old then new else [c]) @ str_replace s old new"
  by (simp add: str_replace_def)

lemma str_replace_append:
  "str_replace (s @ t) old new = str_replace s old new @ str_replace t old new"
  by (simp add: str_replace_def)

lemma replace_chain:
  "str_replace (str_replace (str_replace (str_replace s (CHR ''A'') ''00'') (CHR ''C'') ''01'')
      (CHR ''G'') ''10'') (CHR ''T'') ''11'' = concat (map bits_of s)"
proof (induction s)
  case Nil
  then show ?case by (simp add: str_replace_Nil)
next
  case (Cons c s)
  then show ?case
    by (simp add: str_replace_Cons str_replace_append str_replace_Nil bits_of_def)
qed

lemma double_underscore_bits: "all_bits bs \<Longrightarrow> \<not> double_underscore bs"
proof (induction bs rule: double_underscore.induct)
  case (1 a b r)
  then show ?case by (auto simp: all_bits_def is_bin_digit_def)
qed simp_all

lemma int_base2_bits:
  assumes "all_bits bs" "bs \<noteq> []"
  shows "int_base2 bs = Inr (bin_value bs)"
proof -
  obtain c r where bs: "bs = c # r" using assms(2) by (cases bs) auto
  have c: "is_bin_digit c" using assms(1) bs by (simp add: all_bits_def)
  have nsp: "\<not> is_space c" using c by (auto simp: is_bin_digit_def is_space_def)
  have dw: "dropWhile is_space bs = bs" using nsp bs by simp
  have sg: "skip_sign bs = (1, bs)" using c bs by (auto simp: skip_sign_def is_bin_digit_def)
  have pf: "skip_prefix bs = bs"
  proof (cases r)
    case Nil
    then show ?thesis using bs by (simp add: skip_prefix_def)
  next
    case (Cons b r')
    then have "is_bin_digit b" using assms(1) bs by (simp add: all_bits_def)
    then have "b \<noteq> CHR ''b''" "b \<noteq> CHR ''B''" by (auto simp: is_bin_digit_def)
    then show ?thesis using bs Cons by (simp add: skip_prefix_def)
  qed
  have lit: "\<forall>x \<in> set bs. in_literal x" using assms(1) by (simp add: all_bits_def in_literal_def)
  have tw: "takeWhile in_literal bs = bs" using lit by (simp add: takeWhile_eq_all_conv)
  have dr: "dropWhile in_literal bs = []" using lit by simp
  have h: "hd bs \<noteq> CHR ''_''" using c bs by (auto simp: is_bin_digit_def)
  have "is_bin_digit (last bs)" using assms by (simp add: all_bits_def)
  then have l: "last bs \<noteq> CHR ''_''" by (auto simp: is_bin_digit_def)
  have f: "filter is_bin_digit bs = bs" using assms(1) by (simp add: all_bits_def)
  show ?thesis
    unfolding int_base2_def dw sg
    using assms(2) h l double_underscore_bits[OF assms(1)]
    by (simp add: pf tw dr f)
qed

lemma all_bits_concat: "is_dna s \<Longrightarrow> all_bits (concat (map bits_of s))"
  by (induction s) (auto simp: is_dna_def all_bits_def bits_of_def is_bin_digit_def)

lemma foldl_bits_of:
  "is_dna s \<Longrightarrow>
   foldl (\<lambda>a c. 2 * a + digit_val c) a (concat (map bits_of s)) = foldl (\<lambda>a c. 4 * a + code_of c) a s"
proof (induction s arbitrary: a)
  case Nil
  then show ?case by simp
next
  case (Cons c s)
  then have c: "c \<in> {CHR ''A'', CHR ''C'', CHR ''G'', CHR ''T''}" and s: "is_dna s"
    by (simp_all add: is_dna_def)
  have "foldl (\<lambda>a c. 2 * a + digit_val c) a (bits_of c) = 4 * a + code_of c"
    using c by (auto simp: bits_of_def code_of_def digit_val_def)
  then show ?case using Cons.IH[OF s] by simp
qed

lemma bin_value_bits_of: "is_dna s \<Longrightarrow> bin_value (concat (map bits_of s)) = quat_value s"
  by (simp add: bin_value_def quat_value_def foldl_bits_of)

lemma stringToBinary_dna:
  assumes "is_dna s" "0 < n" "s \<noteq> []"
  shows "stringToBinary s (int n) = Inr (quat_value (take n s))"
proof -
  have d: "is_dna (take n s)" using assms(1) by (auto simp: is_dna_def dest: in_set_takeD)
  have ne: "concat (map bits_of (take n s)) \<noteq> []"
  proof -
    obtain c r where "take n s = c # r" using assms(2,3) by (cases "take n s") auto
    then show ?thesis by (auto simp: bits_of_def)
  qed
  show ?thesis
    unfolding stringToBinary_def Let_def slice_to_nat replace_chain
    using int_base2_bits[OF all_bits_concat[OF d] ne] bin_value_bits_of[OF d] by simp
qed

lemma quat_value_snoc: "quat_value (s @ [c]) = 4 * quat_value s + code_of c"
  by (simp add: quat_value_def)

lemma code_of_nuc: "0 \<le> d \<Longrightarrow> d < 4 \<Longrightarrow> code_of (nuc_of d) = d"
  by (auto simp: code_of_def nuc_of_def)

lemma nuc_of_code: "c \<in> {CHR ''A'', CHR ''C'', CHR ''G'', CHR ''T''} \<Longrightarrow> nuc_of (code_of c) = c"
  by (auto simp: code_of_def nuc_of_def)

lemma code_of_range: "0 \<le> code_of c \<and> code_of c < 4"
  by (simp add: code_of_def)

lemma quat_value_dna: "quat_value (dna n x) = x mod 4 ^ n"
proof (induction n arbitrary: x)
  case 0
  then show ?case by (simp add: quat_value_def)
next
  case (Suc n)
  have "quat_value (dna (Suc n) x) = 4 * (x div 4 mod 4 ^ n) + x mod 4"
    by (simp add: quat_value_snoc Suc.IH code_of_nuc)
  also have "\<dots> = x mod 4 ^ Suc n"
    by (simp add: zmod_zmult2_eq)
  finally show ?case .
qed

lemma dna_quat_value: "is_dna s \<Longrightarrow> dna (length s) (quat_value s) = s"
proof (induction s rule: rev_induct)
  case Nil
  then show ?case by simp
next
  case (snoc c s)
  then have c: "c \<in> {CHR ''A'', CHR ''C'', CHR ''G'', CHR ''T''}" and s: "is_dna s"
    by (simp_all add: is_dna_def)
  have r: "0 \<le> code_of c" "code_of c < 4" using code_of_range[of c] by simp_all
  have d: "(4 * quat_value s + code_of c) div 4 = quat_value s" using r by simp
  have m: "(4 * quat_value s + code_of c) mod 4 = code_of c" using r by simp
  have "dna (length (s @ [c])) (quat_value (s @ [c]))
      = dna (length s) ((4 * quat_value s + code_of c) div 4) @ [nuc_of ((4 * quat_value s + code_of c) mod 4)]"
    by (simp add: quat_value_snoc)
  also have "\<dots> = s @ [c]"
    by (simp only: d m snoc.IH[OF s] nuc_of_code[OF c])
  finally show ?case .
qed

lemma quat_value_bounds: "0 \<le> quat_value s \<and> quat_value s < 4 ^ length s"
proof (induction s rule: rev_induct)
  case Nil
  then show ?case by (simp add: quat_value_def)
next
  case (snoc c s)
  then show ?case using code_of_range[of c] by (simp add: quat_value_snoc)
qed

section \<open>Byte strings, blocks and the parsing loop\<close>

lemma length_le_bytes: "length (le_bytes n v) = n"
  by (induction n arbitrary: v) simp_all

lemma le_int_le_bytes_mod: "le_int (le_bytes n v) = v mod 256 ^ n"
proof (induction n arbitrary: v)
  case 0
  then show ?case by simp
next
  case (Suc n)
  have u: "uint (word_of_int v :: byte) = v mod 256"
    by (simp add: uint_word_of_int take_bit_eq_mod)
  have "le_int (le_bytes (Suc n) v) = v mod 256 + 256 * (v div 256 mod 256 ^ n)"
    by (simp add: u Suc.IH)
  also have "\<dots> = v mod 256 ^ Suc n"
    by (simp add: zmod_zmult2_eq)
  finally show ?case .
qed

lemma le_int_le_bytes: "0 \<le> v \<Longrightarrow> v < 2 ^ (8 * n) \<Longrightarrow> le_int (le_bytes n v) = v"
proof -
  assume a: "0 \<le> v" "v < 2 ^ (8 * n)"
  have "(256::int) ^ n = 2 ^ (8 * n)" by (simp add: power_mult)
  then show ?thesis using a by (simp add: le_int_le_bytes_mod)
qed

lemma le_int_le_bytes_4: "u32 v \<Longrightarrow> le_int (le_bytes 4 v) = v"
  using le_int_le_bytes[of v 4] by (simp add: u32_def)

lemma le_int_le_bytes_8: "u64 v \<Longrightarrow> le_int (le_bytes 8 v) = v"
  using le_int_le_bytes[of v 8] by (simp add: u64_def)

lemma pack_uint_4: "u32 v \<Longrightarrow> pack_uint 4 v = Inr (le_bytes 4 v)"
  by (simp add: pack_uint_def u32_def)

lemma pack_uint_8: "u64 v \<Longrightarrow> pack_uint 8 v = Inr (le_bytes 8 v)"
  by (simp add: pack_uint_def u64_def)

lemma pack_IIII_ok:
  "u32 a \<Longrightarrow> u32 b \<Longrightarrow> u32 c \<Longrightarrow> u32 d \<Longrightarrow>
   pack_IIII a b c d = Inr (le_bytes 4 a @ le_bytes 4 b @ le_bytes 4 c @ le_bytes 4 d)"
  by (simp add: pack_IIII_def pack_uint_4)

lemma pack_QQIIII_ok:
  "well_formed_record (bc, umi, ec, num, flag, pad) \<Longrightarrow>
   pack_QQIIII bc umi ec num flag pad = Inr (record_block (bc, umi, ec, num, flag, pad))"
  by (simp add: pack_QQIIII_def well_formed_record_def record_block_def pack_uint_4 pack_uint_8)

lemma length_record_block: "length (record_block r) = 32"
  by (cases r) (simp add: record_block_def length_le_bytes)

lemma decode_record_block:
  "well_formed_record r \<Longrightarrow> decode_block (record_block r) = (record_key r, record_entry r)"
  by (cases r)
     (simp add: decode_block_def record_block_def well_formed_record_def record_key_def
        record_entry_def length_le_bytes le_int_le_bytes_4 le_int_le_bytes_8)

lemma unpack_QQIIII_32:
  "length b = 32 \<Longrightarrow>
   unpack_QQIIII b = Inr (fst (decode_block b), fst (snd (decode_block b)),
     fst (snd (snd (decode_block b))), fst (snd (snd (snd (decode_block b)))),
     snd (snd (snd (snd (decode_block b)))), le_int (take 4 (drop 28 b)))"
  by (simp add: unpack_QQIIII_def decode_block_def)

declare parseBUS_loop.simps [simp del]

lemma parseBUS_loop_empty: "parseBUS_loop [] self inp = Inr (self, inp)"
  by (simp add: parseBUS_loop.simps)

lemma parseBUS_loop_short:
  "b \<noteq> [] \<Longrightarrow> length b \<noteq> 32 \<Longrightarrow> parseBUS_loop b self inp = Inl StructError"
  by (simp add: parseBUS_loop.simps[of b] unpack_QQIIII_def)

lemma parseBUS_loop_block:
  assumes "length b = 32"
  shows "parseBUS_loop b self inp =
         parseBUS_loop (take 32 inp)
           (self\<lparr>n_entries := n_entries self + 1,
                 bcd := add_entry (bcd self) (fst (decode_block b)) (snd (decode_block b))\<rparr>)
           (drop 32 inp)"
proof -
  have ne: "b \<noteq> []" using assms by auto
  show ?thesis
    by (subst parseBUS_loop.simps)
       (simp add: ne unpack_QQIIII_32[OF assms] read_bytes_def Let_def)
qed

lemma parseBUS_loop_blocks:
  "length b = 32 \<Longrightarrow> \<forall>c \<in> set bl. length c = 32 \<Longrightarrow>
   parseBUS_loop b self (concat bl) =
     Inr (self\<lparr>n_entries := n_entries self + int (length bl) + 1,
               bcd := add_all (bcd self) (map decode_block (b # bl))\<rparr>, [])"
proof (induction bl arbitrary: b self)
  case Nil
  then show ?case
    by (simp add: parseBUS_loop_block parseBUS_loop_empty add_all_def)
next
  case (Cons c bl)
  then have c: "length c = 32" and bl: "\<forall>c \<in> set bl. length c = 32" by simp_all
  show ?case
    using Cons.prems(1) c
    by (simp add: parseBUS_loop_block Cons.IH[OF c bl] add_all_def)
qed

lemma parseBUS_blocks:
  assumes "\<forall>c \<in> set bl. length c = 32"
  shows "parseBUS self (concat bl) =
     Inr (self\<lparr>n_entries := n_entries self + int (length bl) + 1,
               bcd := add_all (bcd self) (map decode_block bl)\<rparr>, [])"
proof (cases bl)
  case Nil
  then show ?thesis by (simp add: parseBUS_def read_bytes_def parseBUS_loop_empty add_all_def)
next
  case (Cons c bl')
  then have c: "length c = 32" and bl: "\<forall>c \<in> set bl'. length c = 32" using assms by simp_all
  show ?thesis
    using c by (simp add: Cons parseBUS_def read_bytes_def parseBUS_loop_blocks[OF c bl])
qed


lemma parseBUS_loop_tail:
  "length b = 32 \<Longrightarrow> \<forall>c \<in> set bl. length c = 32 \<Longrightarrow> rest \<noteq> [] \<Longrightarrow> length rest < 32 \<Longrightarrow>
   parseBUS_loop b self (concat bl @ rest) = Inl StructError"
proof (induction bl arbitrary: b self)
  case Nil
  then show ?case
    by (simp add: parseBUS_loop_block parseBUS_loop_short)
next
  case (Cons c bl)
  then have c: "length c = 32" and bl: "\<forall>c \<in> set bl. length c = 32" by simp_all
  show ?case
    using Cons.prems(1) c
    by (simp add: parseBUS_loop_block Cons.IH[OF c bl Cons.prems(3,4)])
qed

lemma parseBUS_tail:
  assumes "\<forall>c \<in> set bl. length c = 32" and "rest \<noteq> []" and "length rest < 32"
  shows "parseBUS self (concat bl @ rest) = Inl StructError"
proof (cases bl)
  case Nil
  then show ?thesis using assms(2,3)
    by (simp add: parseBUS_def read_bytes_def parseBUS_loop_short)
next
  case (Cons c bl')
  then have c: "length c = 32" and bl: "\<forall>c \<in> set bl'. length c = 32" using assms by simp_all
  show ?thesis
    using c by (simp add: Cons parseBUS_def read_bytes_def parseBUS_loop_tail[OF c bl assms(2,3)])
qed

lemma split_blocks:
  "length inp = 32 * k + r \<Longrightarrow> r < 32 \<Longrightarrow>
   \<exists>bl rest. inp = concat bl @ rest \<and> length bl = k \<and> length rest = r \<and> (\<forall>c \<in> set bl. length c = 32)"
proof (induction k arbitrary: inp)
  case 0
  then show ?case by (intro exI[of _ "[]"] exI[of _ inp]) simp
next
  case (Suc k)
  then have "length (drop 32 inp) = 32 * k + r" by simp
  from Suc.IH[OF this Suc.prems(2)] obtain bl rest where
    h: "drop 32 inp = concat bl @ rest" "length bl = k" "length rest = r" "\<forall>c \<in> set bl. length c = 32"
    by blast
  have t: "length (take 32 inp) = 32" using Suc.prems(1) by simp
  have "inp = concat (take 32 inp # bl) @ rest"
    using h(1) append_take_drop_id[of 32 inp] by (simp del: append_take_drop_id)
  then show ?case using h t by (intro exI[of _ "take 32 inp # bl"] exI[of _ rest]) simp
qed

text \<open>
  The counter after a body of \<open>k\<close> blocks: one increment for each block and one for the
  read that finds the end of the stream.
\<close>

lemma parseBUS_counter:
  assumes "length inp = 32 * k"
  shows "\<exists>r. parseBUS self inp = Inr (r, []) \<and> n_entries r = n_entries self + int k + 1"
proof -
  have e: "length inp = 32 * k + 0" using assms by simp
  from split_blocks[OF e] obtain bl rest where
    h: "inp = concat bl @ rest" "length bl = k" "length rest = 0" "\<forall>c \<in> set bl. length c = 32"
    by auto
  from h(1,3) have "inp = concat bl" by simp
  then have "parseBUS self inp =
       Inr (self\<lparr>n_entries := n_entries self + int (length bl) + 1,
                 bcd := add_all (bcd self) (map decode_block bl)\<rparr>, [])"
    by (simp only: parseBUS_blocks[OF h(4)])
  then show ?thesis using h(2) by simp
qed

lemma map_of_dict_set: "map_of (dict_set k v d) = (map_of d)(k \<mapsto> v)"
  by (induction d) (auto simp: fun_eq_iff)

lemma map_of_add_entry:
  "map_of (add_entry d k t) b = (if b = k then Some (lookup_list d k @ [t]) else map_of d b)"
  by (simp add: add_entry_def lookup_list_def map_of_dict_set split: option.splits)

lemma lookup_list_add_entry:
  "lookup_list (add_entry d k t) b = (if b = k then lookup_list d k @ [t] else lookup_list d b)"
  by (simp add: lookup_list_def map_of_add_entry)

lemma map_of_add_all:
  "map_of (add_all d es) b =
     (if b \<in> fst ` set es then Some (lookup_list d b @ map snd (filter (\<lambda>e. fst e = b) es))
      else map_of d b)"
proof (induction es arbitrary: d)
  case Nil
  then show ?case by (simp add: add_all_def)
next
  case (Cons e es)
  have step: "add_all d (e # es) = add_all (add_entry d (fst e) (snd e)) es"
    by (simp add: add_all_def)
  show ?case
    unfolding step Cons.IH
    by (auto simp: map_of_add_entry lookup_list_add_entry filter_empty_conv image_iff)
qed

lemma le_bytes_4: "le_bytes 4 v = u32_le v"
proof -
  have a: "v div 256 div 256 = v div 65536"
    using zdiv_zmult2_eq[of 256 v 256] by simp
  have b: "v div 65536 div 256 = v div 16777216"
    using zdiv_zmult2_eq[of 256 v 65536] by simp
  have "le_bytes (Suc (Suc (Suc (Suc 0)))) v = u32_le v"
    by (simp add: u32_le_def a b)
  then show ?thesis by (simp add: eval_nat_numeral)
qed

section \<open>Writing, and reading back what was written\<close>

lemma record_key_entry_record: "record_key (entry_record bc t) = bc"
  by (cases t) (simp add: record_key_def entry_record_def)

lemma record_entry_entry_record: "record_entry (entry_record bc t) = t"
  by (cases t) (simp add: record_entry_def entry_record_def)

lemma write_tuples_ok:
  "\<forall>t \<in> set vs. well_formed_record (entry_record bc t) \<Longrightarrow>
   write_tuples bc vs outf = Inr (outf @ concat (map (\<lambda>t. record_block (entry_record bc t)) vs))"
proof (induction vs arbitrary: outf)
  case Nil
  then show ?case by simp
next
  case (Cons t vs)
  obtain umi ec num flag where t: "t = (umi, ec, num, flag)" by (cases t) auto
  have wf: "well_formed_record (bc, umi, ec, num, flag, 0)"
    using Cons.prems t by (simp add: entry_record_def)
  have tl: "\<forall>t \<in> set vs. well_formed_record (entry_record bc t)" using Cons.prems by simp
  show ?case
    by (simp add: t pack_QQIIII_ok[OF wf] Cons.IH[OF tl] entry_record_def)
qed

lemma write_items_ok:
  "\<forall>(bc, vs) \<in> set d. \<forall>t \<in> set vs. well_formed_record (entry_record bc t) \<Longrightarrow>
   write_items d outf = Inr (outf @ concat (map record_block (dict_records d)))"
proof (induction d arbitrary: outf)
  case Nil
  then show ?case by (simp add: dict_records_def)
next
  case (Cons kv d)
  obtain bc vs where kv: "kv = (bc, vs)" by (cases kv) auto
  have hd: "\<forall>t \<in> set vs. well_formed_record (entry_record bc t)" using Cons.prems kv by auto
  have tl: "\<forall>(bc, vs) \<in> set d. \<forall>t \<in> set vs. well_formed_record (entry_record bc t)"
    using Cons.prems by simp
  have dr: "dict_records ((bc, vs) # d) = map (entry_record bc) vs @ dict_records d"
    by (simp add: dict_records_def)
  show ?case
    by (simp add: kv write_tuples_ok[OF hd] Cons.IH[OF tl] dr comp_def)
qed

lemma dict_set_fresh: "k \<notin> fst ` set d \<Longrightarrow> dict_set k v d = d @ [(k, v)]"
  by (induction d) auto

lemma map_of_fresh: "k \<notin> fst ` set d \<Longrightarrow> map_of d k = None"
  by (simp add: map_of_eq_None_iff)

lemma dict_set_last: "k \<notin> fst ` set d \<Longrightarrow> dict_set k v (d @ [(k, u)]) = d @ [(k, v)]"
  by (induction d) auto

lemma map_of_last: "k \<notin> fst ` set d \<Longrightarrow> map_of (d @ [(k, u)]) k = Some u"
  by (induction d) auto

lemma add_all_same_key:
  "k \<notin> fst ` set d \<Longrightarrow> add_all (d @ [(k, us)]) (map (Pair k) vs) = d @ [(k, us @ vs)]"
proof (induction vs arbitrary: us)
  case Nil
  then show ?case by (simp add: add_all_def)
next
  case (Cons v vs)
  have "add_all (d @ [(k, us)]) (map (Pair k) (v # vs))
        = add_all (add_entry (d @ [(k, us)]) k v) (map (Pair k) vs)"
    by (simp add: add_all_def)
  also have "add_entry (d @ [(k, us)]) k v = d @ [(k, us @ [v])]"
    by (simp only: add_entry_def map_of_last[OF Cons.prems] dict_set_last[OF Cons.prems]
          option.case)
  also have "add_all (d @ [(k, us @ [v])]) (map (Pair k) vs) = d @ [(k, (us @ [v]) @ vs)]"
    by (rule Cons.IH[OF Cons.prems])
  finally show ?case by simp
qed

lemma add_all_new_key:
  assumes "k \<notin> fst ` set d"
  shows "add_all d (map (Pair k) vs) = (if vs = [] then d else d @ [(k, vs)])"
proof (cases vs)
  case Nil
  then show ?thesis by (simp add: add_all_def)
next
  case (Cons v vs')
  have "add_all d (map (Pair k) (v # vs')) = add_all (add_entry d k v) (map (Pair k) vs')"
    by (simp add: add_all_def)
  also have "add_entry d k v = d @ [(k, [v])]"
    using assms by (simp add: add_entry_def map_of_fresh dict_set_fresh)
  also have "add_all (d @ [(k, [v])]) (map (Pair k) vs') = d @ [(k, [v] @ vs')]"
    by (rule add_all_same_key[OF assms])
  finally show ?thesis using Cons by simp
qed

lemma add_all_append: "add_all d (xs @ ys) = add_all (add_all d xs) ys"
  by (simp add: add_all_def)

lemma add_all_dict:
  "distinct (map fst d) \<Longrightarrow> fst ` set acc \<inter> fst ` set d = {} \<Longrightarrow>
   add_all acc (concat (map (\<lambda>(k, vs). map (Pair k) vs) d)) = acc @ filter (\<lambda>(k, vs). vs \<noteq> []) d"
proof (induction d arbitrary: acc)
  case Nil
  then show ?case by (simp add: add_all_def)
next
  case (Cons kv d)
  obtain k vs where kv: "kv = (k, vs)" by (cases kv) auto
  have fresh: "k \<notin> fst ` set acc" using Cons.prems(2) kv by auto
  have dist: "distinct (map fst d)" and knd: "k \<notin> fst ` set d"
    using Cons.prems(1) kv by simp_all
  have disj: "fst ` set acc \<inter> fst ` set d = {}" using Cons.prems(2) by auto
  have split: "add_all acc (concat (map (\<lambda>(k, vs). map (Pair k) vs) (kv # d)))
      = add_all (add_all acc (map (Pair k) vs)) (concat (map (\<lambda>(k, vs). map (Pair k) vs) d))"
    by (simp add: kv add_all_append)
  show ?case
  proof (cases "vs = []")
    case True
    then show ?thesis
      unfolding split using add_all_new_key[OF fresh, of vs] Cons.IH[OF dist disj]
      by (simp add: kv)
  next
    case False
    have disj': "fst ` set (acc @ [(k, vs)]) \<inter> fst ` set d = {}"
      using disj knd by auto
    show ?thesis
      unfolding split using add_all_new_key[OF fresh, of vs] Cons.IH[OF dist disj'] False
      by (simp add: kv)
  qed
qed

lemma pairs_dict_records:
  "map (\<lambda>r. (record_key r, record_entry r)) (dict_records d)
   = concat (map (\<lambda>(k, vs). map (Pair k) vs) d)"
  by (induction d)
     (auto simp: dict_records_def record_key_entry_record record_entry_entry_record comp_def)

lemma read_bytes_exact: "int (length a) = k \<Longrightarrow> read_bytes k (a @ rest) = (a, rest)"
  by (auto simp: read_bytes_def)

lemma unpack_IIII_ok:
  "u32 a \<Longrightarrow> u32 b \<Longrightarrow> u32 c \<Longrightarrow> u32 d \<Longrightarrow>
   unpack_IIII (le_bytes 4 a @ le_bytes 4 b @ le_bytes 4 c @ le_bytes 4 d) = Inr (a, b, c, d)"
  by (simp add: unpack_IIII_def length_le_bytes le_int_le_bytes_4)

lemma parseHeader_ok:
  assumes "u32 v" and "u32 bl" and "u32 ul" and "length tb < 2 ^ 32"
  shows "parseHeader self
           (BUS_magic @ (le_bytes 4 v @ le_bytes 4 bl @ le_bytes 4 ul @ le_bytes 4 (int (length tb)))
              @ tb @ body)
         = Inr (self\<lparr>format := Str ''BUS'', version := v, bclen := bl, umilen := ul,
                     textlen := int (length tb), text_attr := Bytes tb\<rparr>,
                body, if v \<noteq> 1 then [VersionWarning] else [])"
proof -
  let ?h = "le_bytes 4 v @ le_bytes 4 bl @ le_bytes 4 ul @ le_bytes 4 (int (length tb))"
  have l: "u32 (int (length tb))" using assms(4) by (simp add: u32_def)
  have r1: "read_bytes 4 (BUS_magic @ ?h @ tb @ body) = (BUS_magic, ?h @ tb @ body)"
    by (rule read_bytes_exact) (simp add: BUS_magic_def)
  have r2: "read_bytes 16 (?h @ tb @ body) = (?h, tb @ body)"
    by (rule read_bytes_exact) (simp add: length_le_bytes)
  have r3: "read_bytes (int (length tb)) (tb @ body) = (tb, body)"
    by (rule read_bytes_exact) simp
  have u1: "unpack_s 4 BUS_magic = Inr BUS_magic" by (simp add: unpack_s_def BUS_magic_def)
  have u3: "unpack_s (int (length tb)) tb = Inr tb" by (simp add: unpack_s_def)
  show ?thesis
    unfolding parseHeader_def
    by (simp add: r1 r2 r3 u1 u3 unpack_IIII_ok[OF assms(1-3) l] BUSFORMAT_VERSION_def
          del: append_assoc)
qed

lemma BUSFIle_write_ok:
  assumes "u32 (version self)" and "u32 (bclen self)" and "u32 (umilen self)"
    and "length (text_bytes (text_attr self)) < 2 ^ 32"
    and "\<forall>(bc, vs) \<in> set (bcd self). \<forall>t \<in> set vs. well_formed_record (entry_record bc t)"
  shows "BUSFIle_write files self p ''BUS'' =
     Inr (files(p \<mapsto>
            BUS_magic @ le_bytes 4 (version self) @ le_bytes 4 (bclen self)
              @ le_bytes 4 (umilen self) @ le_bytes 4 (int (length (text_bytes (text_attr self))))
            @ text_bytes (text_attr self) @ concat (map record_block (dict_records (bcd self)))),
          self\<lparr>out_file_path := Some p\<rparr>)"
proof -
  have l: "u32 (int (length (text_bytes (text_attr self))))"
    using assms(4) by (simp add: u32_def)
  show ?thesis
    using pack_IIII_ok[OF assms(1-3) l] write_items_ok[OF assms(5)]
    by (simp add: BUSFIle_write_def writeHeader_def writeBUS_def Let_def)
qed

lemma BUSFIle_read_ok:
  assumes "u32 v" and "u32 bl" and "u32 ul" and "length tb < 2 ^ 32"
    and "\<forall>r \<in> set rs. well_formed_record r"
    and "files p = Some (BUS_magic @ le_bytes 4 v @ le_bytes 4 bl @ le_bytes 4 ul
            @ le_bytes 4 (int (length tb)) @ tb @ concat (map record_block rs))"
  shows "BUSFIle_read files p =
     Inr (BUSFIle_init\<lparr>in_file_path := Some p, format := Str ''BUS'', version := v,
            bclen := bl, umilen := ul, textlen := int (length tb), text_attr := Bytes tb,
            n_entries := int (length rs) + 1,
            bcd := add_all [] (map (\<lambda>r. (record_key r, record_entry r)) rs)\<rparr>,
          if v \<noteq> 1 then [VersionWarning] else [])"
proof -
  have len: "\<forall>c \<in> set (map record_block rs). length c = 32"
    by (simp add: length_record_block)
  have dec: "map decode_block (map record_block rs) = map (\<lambda>r. (record_key r, record_entry r)) rs"
    using assms(5) by (simp add: decode_record_block)
  define ev where "ev = (if v \<noteq> 1 then [VersionWarning] else [])"
  let ?s = "BUSFIle_init\<lparr>in_file_path := Some p, format := Str ''BUS'', version := v,
            bclen := bl, umilen := ul, textlen := int (length tb), text_attr := Bytes tb\<rparr>"
  have ph: "parseHeader (BUSFIle_init\<lparr>in_file_path := Some p\<rparr>)
          (BUS_magic @ le_bytes 4 v @ le_bytes 4 bl @ le_bytes 4 ul
            @ le_bytes 4 (int (length tb)) @ tb @ concat (map record_block rs))
        = Inr (?s, concat (map record_block rs), ev)"
    using parseHeader_ok[OF assms(1-4), of "BUSFIle_init\<lparr>in_file_path := Some p\<rparr>"
            "concat (map record_block rs)"]
    by (simp add: ev_def)
  have pb: "parseBUS ?s (concat (map record_block rs)) =
        Inr (?s\<lparr>n_entries := n_entries ?s + int (length (map record_block rs)) + 1,
                bcd := add_all (bcd ?s) (map decode_block (map record_block rs))\<rparr>, [])"
    by (rule parseBUS_blocks[OF len])
  have pb': "parseBUS ?s (concat (map record_block rs)) =
        Inr (?s\<lparr>n_entries := int (length rs) + 1,
                bcd := add_all [] (map (\<lambda>r. (record_key r, record_entry r)) rs)\<rparr>, [])"
    unfolding pb dec by (simp add: BUSFIle_init_def)
  have "BUSFIle_read files p =
     Inr (?s\<lparr>n_entries := int (length rs) + 1,
             bcd := add_all [] (map (\<lambda>r. (record_key r, record_entry r)) rs)\<rparr>, ev)"
    by (simp add: BUSFIle_read_def assms(6) ph pb')
  then show ?thesis by (simp add: ev_def)
qed

section \<open>Claims about the nucleotide codec\<close>

text \<open>
  C2, as amended. For every string \<open>s\<close> over A, C, G, T and every length \<open>n\<close> with
  \<open>1 \<le> n \<le> len(s)\<close>, \<^verbatim>\<open>stringToBinary(s, n)\<close> returns an integer and
  \<^verbatim>\<open>binaryToString\<close> of that integer at length \<open>n\<close> returns \<^verbatim>\<open>s[:n]\<close>. No upper
  bound on \<open>n\<close> is needed (Python integers are unbounded), so the case \<open>n \<le> 32\<close> is
  included.
\<close>

theorem decode_encode_roundtrip:
  assumes "set s \<subseteq> {CHR ''A'', CHR ''C'', CHR ''G'', CHR ''T''}" and "1 \<le> n" and "n \<le> length s"
  shows "\<exists>v. stringToBinary s (int n) = Inr v \<and> binaryToString v (int n) = Inr (take n s)"
proof -
  have d: "is_dna s" using assms(1) by (simp add: is_dna_def)
  have ne: "s \<noteq> []" using assms(2,3) by auto
  have dt: "is_dna (take n s)" using assms(1) by (auto simp: is_dna_def dest: in_set_takeD)
  have len: "length (take n s) = n" using assms(3) by simp
  have enc: "stringToBinary s (int n) = Inr (quat_value (take n s))"
    using stringToBinary_dna[OF d _ ne, of n] assms(2) by simp
  have "binaryToString (quat_value (take n s)) (int n) = Inr (take n s)"
    using dna_quat_value[OF dt] by (simp only: binaryToString_dna len)
  with enc show ?thesis by blast
qed

theorem decode_encode_roundtrip_witness:
  "\<exists>v. stringToBinary ''GATTACA'' 4 = Inr v \<and> binaryToString v 4 = Inr ''GATT''"
  using decode_encode_roundtrip[of "''GATTACA''" 4] by simp

text \<open>
  C2 as stated admits \<open>n = 0\<close>, where the encoder does not return: the slice is empty
  and \<^verbatim>\<open>int('', 2)\<close> raises ValueError.
\<close>

theorem decode_encode_roundtrip_counterexample:
  "stringToBinary ''ACGT'' 0 = Inl ValueError"
  by code_simp

text \<open>
  C3, as amended. For every \<open>n \<ge> 1\<close> and every integer \<open>x\<close> with \<open>0 \<le> x < 4^n\<close>,
  \<^verbatim>\<open>binaryToString(x, n)\<close> returns a string and \<^verbatim>\<open>stringToBinary\<close> of that string at
  length \<open>n\<close> returns \<open>x\<close>.
\<close>

theorem encode_decode_roundtrip:
  assumes "1 \<le> n" and "0 \<le> x" and "x < 4 ^ n"
  shows "\<exists>s. binaryToString x (int n) = Inr s \<and> stringToBinary s (int n) = Inr x"
proof -
  have ne: "dna n x \<noteq> []" using assms(1) length_dna[of n x] by auto
  have "stringToBinary (dna n x) (int n) = Inr (quat_value (take n (dna n x)))"
    using stringToBinary_dna[OF is_dna_dna _ ne, of n] assms(1) by simp
  also have "take n (dna n x) = dna n x" by (simp add: length_dna)
  also have "quat_value (dna n x) = x" using assms(2,3) by (simp add: quat_value_dna)
  finally show ?thesis using binaryToString_dna[of x n] by blast
qed

theorem encode_decode_roundtrip_witness:
  "\<exists>s. binaryToString 27 4 = Inr s \<and> stringToBinary s 4 = Inr 27"
  using encode_decode_roundtrip[of 4 27] by simp

text \<open>
  C3 as stated admits \<open>n = 0\<close> with \<open>x = 0\<close>: the decoder returns the empty string, on
  which the encoder raises ValueError.
\<close>

theorem encode_decode_roundtrip_counterexample:
  "binaryToString 0 0 = Inr [] \<and> stringToBinary [] 0 = Inl ValueError"
  by code_simp

text \<open>
  C10. \<^verbatim>\<open>binaryToString(x, n)\<close> depends on \<open>x\<close> only through \<open>x mod 4^n\<close>, for every
  integer \<open>x\<close> (negative ones too) and every length \<open>n\<close>; it always returns, and the
  result has exactly \<open>n\<close> characters, each one of A, C, G, T.
\<close>

theorem decode_low_bits_only:
  "binaryToString x (int n) = binaryToString (x mod 4 ^ n) (int n) \<and>
   (\<exists>s. binaryToString x (int n) = Inr s \<and> length s = n \<and>
        set s \<subseteq> {CHR ''A'', CHR ''C'', CHR ''G'', CHR ''T''})"
proof -
  have "binaryToString x (int n) = binaryToString (x mod 4 ^ n) (int n)"
    by (simp only: binaryToString_dna dna_mod)
  moreover have "set (dna n x) \<subseteq> {CHR ''A'', CHR ''C'', CHR ''G'', CHR ''T''}"
    using is_dna_dna[of n x] by (simp add: is_dna_def)
  ultimately show ?thesis
    using binaryToString_dna[of x n] length_dna[of n x] by blast
qed

theorem decode_low_bits_only_witness:
  "binaryToString (- 1) 3 = binaryToString 63 3 \<and> binaryToString (- 1) 3 = Inr ''TTT''"
proof -
  have "binaryToString (- 1) 3 = Inr ''TTT''" by code_simp
  moreover have "(- 1 :: int) mod 4 ^ 3 = 63" by simp
  ultimately show ?thesis using decode_low_bits_only[of "- 1" 3] by simp
qed

text \<open>
  C8, as amended. When \<open>len(s) < n\<close> the encoder raises no length error: the slice
  \<^verbatim>\<open>s[:n]\<close> is all of \<open>s\<close>, so \<^verbatim>\<open>stringToBinary(s, n)\<close> is
  \<^verbatim>\<open>stringToBinary(s, len(s))\<close>, and for a non-empty \<open>s\<close> over A, C, G, T it returns
  the integer that encodes the \<open>len(s)\<close> symbols of \<open>s\<close>.
\<close>

theorem encode_short_input:
  assumes "length s < n"
  shows "stringToBinary s (int n) = stringToBinary s (int (length s)) \<and>
         (s \<noteq> [] \<and> set s \<subseteq> {CHR ''A'', CHR ''C'', CHR ''G'', CHR ''T''} \<longrightarrow>
            (\<exists>v. stringToBinary s (int n) = Inr v \<and> binaryToString v (int (length s)) = Inr s))"
proof -
  have eq: "stringToBinary s (int n) = stringToBinary s (int (length s))"
    using assms by (simp add: stringToBinary_def slice_to_nat)
  have "\<exists>v. stringToBinary s (int n) = Inr v \<and> binaryToString v (int (length s)) = Inr s"
    if ne: "s \<noteq> []" and d: "set s \<subseteq> {CHR ''A'', CHR ''C'', CHR ''G'', CHR ''T''}"
  proof -
    have d': "is_dna s" using d by (simp add: is_dna_def)
    have "0 < n" using assms by simp
    then have "stringToBinary s (int n) = Inr (quat_value (take n s))"
      using stringToBinary_dna[OF d' _ ne, of n] by simp
    moreover have "take n s = s" using assms by simp
    moreover have "binaryToString (quat_value s) (int (length s)) = Inr s"
      using dna_quat_value[OF d'] by (simp only: binaryToString_dna)
    ultimately show ?thesis by simp
  qed
  with eq show ?thesis by blast
qed

theorem encode_short_input_witness:
  "stringToBinary ''GT'' 7 = stringToBinary ''GT'' 2 \<and>
   (\<exists>v. stringToBinary ''GT'' 7 = Inr v \<and> binaryToString v 2 = Inr ''GT'')"
proof -
  have h: "length ''GT'' < (7::nat)" by simp
  have l: "int (length ''GT'') = 2" by simp
  have ne: "''GT'' \<noteq> [] \<and> set ''GT'' \<subseteq> {CHR ''A'', CHR ''C'', CHR ''G'', CHR ''T''}" by simp
  note t = encode_short_input[OF h, unfolded l of_nat_numeral]
  from t ne show ?thesis by blast
qed

text \<open>
  C8 as stated: a two-symbol string encoded at length 5 returns 1, the code of the two
  symbols, and no error.
\<close>

theorem encode_short_input_counterexample:
  "stringToBinary ''AC'' 5 = Inr 1"
  by code_simp

section \<open>Claims about the container\<close>

text \<open>
  C1, as amended. Let a container have \<open>version\<close>, \<open>bclen\<close>, \<open>umilen\<close> in the
  unsigned 32-bit range, a text payload shorter than \<open>2^32\<close> bytes, and a record map
  with each barcode as a key once (as in a dictionary) whose records fit their fields
  (64 bits for barcode and umi, 32 bits for the rest).
  Writing it to a path and reading that path back returns a container with the same
  \<open>version\<close>, \<open>bclen\<close> and \<open>umilen\<close>, whose text is the payload written (the text
  itself when it is a byte string, its UTF-8 encoding when it is a \<^verbatim>\<open>str\<close>), and
  whose record map is the original one without the barcodes whose sequence is empty,
  keys and tuples in the same order. So the map is identical when no sequence is empty.
\<close>

theorem write_read_roundtrip:
  assumes "u32 (version self)" and "u32 (bclen self)" and "u32 (umilen self)"
    and "length (text_bytes (text_attr self)) < 2 ^ 32"
    and "distinct (map fst (bcd self))"
    and "\<forall>(bc, vs) \<in> set (bcd self). \<forall>t \<in> set vs. well_formed_record (entry_record bc t)"
  shows "\<exists>r ev. write_then_read files self p = Inr (r, ev) \<and>
           version r = version self \<and> bclen r = bclen self \<and> umilen r = umilen self \<and>
           text_attr r = Bytes (text_bytes (text_attr self)) \<and>
           bcd r = filter (\<lambda>(bc, vs). vs \<noteq> []) (bcd self) \<and>
           ((\<forall>tb. text_attr self = Bytes tb \<longrightarrow> text_attr r = text_attr self)) \<and>
           ((\<forall>(bc, vs) \<in> set (bcd self). vs \<noteq> []) \<longrightarrow> bcd r = bcd self)"
proof -
  let ?tb = "text_bytes (text_attr self)"
  let ?rs = "dict_records (bcd self)"
  let ?content = "BUS_magic @ le_bytes 4 (version self) @ le_bytes 4 (bclen self)
              @ le_bytes 4 (umilen self) @ le_bytes 4 (int (length ?tb)) @ ?tb
              @ concat (map record_block ?rs)"
  have w: "BUSFIle_write files self p ''BUS'' =
           Inr (files(p \<mapsto> ?content), self\<lparr>out_file_path := Some p\<rparr>)"
    by (rule BUSFIle_write_ok[OF assms(1-4,6)])
  have wf: "\<forall>r \<in> set ?rs. well_formed_record r"
    using assms(6) by (auto simp: dict_records_def)
  have f: "(files(p \<mapsto> ?content)) p = Some ?content" by simp
  have d: "add_all [] (map (\<lambda>r. (record_key r, record_entry r)) ?rs)
           = filter (\<lambda>(bc, vs). vs \<noteq> []) (bcd self)"
    unfolding pairs_dict_records using add_all_dict[OF assms(5), of "[]"] by simp
  have r: "BUSFIle_read (files(p \<mapsto> ?content)) p =
     Inr (BUSFIle_init\<lparr>in_file_path := Some p, format := Str ''BUS'',
            version := version self, bclen := bclen self, umilen := umilen self,
            textlen := int (length ?tb), text_attr := Bytes ?tb,
            n_entries := int (length ?rs) + 1,
            bcd := filter (\<lambda>(bc, vs). vs \<noteq> []) (bcd self)\<rparr>,
          if version self \<noteq> 1 then [VersionWarning] else [])"
    using BUSFIle_read_ok[where files = "files(p \<mapsto> ?content)" and p = p and rs = "?rs"
            and tb = "?tb", OF assms(1-4) wf f]
    unfolding d .
  have all: "filter (\<lambda>(bc, vs). vs \<noteq> []) (bcd self) = bcd self"
    if "\<forall>(bc, vs) \<in> set (bcd self). vs \<noteq> []"
    using that by (simp add: filter_id_conv case_prod_beta)
  have same_text: "Bytes ?tb = text_attr self" if "text_attr self = Bytes tb" for tb
    using that by (simp add: text_bytes_def)
  show ?thesis
    unfolding write_then_read_def w sum.case prod.case r
    using all same_text by auto
qed

theorem write_read_roundtrip_witness:
  "\<exists>r ev. write_then_read Map.empty
       (BUSFIle_init\<lparr>text_attr := Bytes [104, 105], version := 1, bclen := 16, umilen := 12,
          bcd := [(7, [(1, 2, 3, 4), (5, 6, 7, 8)]), (5, [(9, 2, 1, 0)])]\<rparr>) ''f'' = Inr (r, ev) \<and>
     version r = 1 \<and> bclen r = 16 \<and> umilen r = 12 \<and> text_attr r = Bytes [104, 105] \<and>
     bcd r = [(7, [(1, 2, 3, 4), (5, 6, 7, 8)]), (5, [(9, 2, 1, 0)])]"
proof -
  let ?c = "BUSFIle_init\<lparr>text_attr := Bytes [104, 105], version := 1, bclen := 16, umilen := 12,
          bcd := [(7, [(1, 2, 3, 4), (5, 6, 7, 8)]), (5, [(9, 2, 1, 0)])]\<rparr>"
  have h: "u32 (version ?c)" "u32 (bclen ?c)" "u32 (umilen ?c)"
    "length (text_bytes (text_attr ?c)) < 2 ^ 32"
    "distinct (map fst (bcd ?c))"
    "\<forall>(bc, vs) \<in> set (bcd ?c). \<forall>t \<in> set vs. well_formed_record (entry_record bc t)"
    by (simp_all add: BUSFIle_init_def u32_def u64_def text_bytes_def well_formed_record_def
          entry_record_def)
  from write_read_roundtrip[OF h, of Map.empty "''f''"] show ?thesis
    by (auto simp: BUSFIle_init_def text_bytes_def)
qed

text \<open>
  C1 as stated: a container whose map holds barcode 5 with an empty sequence writes no
  record for it, and the map read back has no key at all.
\<close>

theorem write_read_roundtrip_counterexample:
  "write_then_read Map.empty
     (BUSFIle_init\<lparr>text_attr := Bytes [], version := 1, bcd := [(5, [])]\<rparr>) ''f''
   = Inr (BUSFIle_init\<lparr>text_attr := Bytes [], version := 1, bcd := [], textlen := 0,
            n_entries := 1, format := Str ''BUS'', in_file_path := Some ''f''\<rparr>, [])"
  by code_simp

text \<open>
  C4. A body stream whose length is not a multiple of 32 makes \<^verbatim>\<open>parseBUS\<close> raise:
  the last read returns between 1 and 31 bytes, the loop is entered and
  \<^verbatim>\<open>struct.unpack\<close> rejects the short buffer with \<^verbatim>\<open>struct.error\<close>, which is the
  error that stands for a truncated record in this code. A stream whose length is a
  multiple of 32 is parsed without an error. Both directions hold, so an error is raised
  exactly for the truncated streams.
\<close>

theorem truncated_body_raises:
  "(parseBUS self inp = Inl StructError \<longleftrightarrow> length inp mod 32 \<noteq> 0) \<and>
   ((\<exists>r. parseBUS self inp = Inr r) \<longleftrightarrow> length inp mod 32 = 0)"
proof -
  have e: "length inp = 32 * (length inp div 32) + length inp mod 32"
    by (rule mult_div_mod_eq[symmetric])
  have r: "length inp mod 32 < 32" by simp
  from split_blocks[OF e r] obtain bl rest where
    h: "inp = concat bl @ rest" "length rest = length inp mod 32" "\<forall>c \<in> set bl. length c = 32"
    by blast
  show ?thesis
  proof (cases "length inp mod 32 = 0")
    case True
    with h(2) have "rest = []" by simp
    with h(1) have "inp = concat bl" by simp
    then have "parseBUS self inp =
       Inr (self\<lparr>n_entries := n_entries self + int (length bl) + 1,
                 bcd := add_all (bcd self) (map decode_block bl)\<rparr>, [])"
      by (simp only: parseBUS_blocks[OF h(3)])
    then show ?thesis using True by simp
  next
    case False
    with h(2) have ne: "rest \<noteq> []" by auto
    from h(2) r have lt: "length rest < 32" by simp
    have "parseBUS self inp = Inl StructError"
      by (simp only: h(1) parseBUS_tail[OF h(3) ne lt])
    then show ?thesis using False by simp
  qed
qed

theorem truncated_body_raises_witness:
  "parseBUS BUSFIle_init (replicate 20 0) = Inl StructError \<and>
   (\<exists>r. parseBUS BUSFIle_init (replicate 64 0) = Inr r)"
  using truncated_body_raises[of BUSFIle_init "replicate 20 0"]
        truncated_body_raises[of BUSFIle_init "replicate 64 0"]
  by simp

text \<open>
  C5. For a body stream made of well-formed 32-byte records, \<^verbatim>\<open>parseBUS\<close> returns,
  and the sequence stored under every barcode \<open>b\<close> that occurs in the stream is the
  sequence stored before (empty when \<open>b\<close> was not a key) followed by the tuples
  (umi, equivalence class, count, flag) of the records with barcode \<open>b\<close>, in the order
  of the stream. A barcode that does not occur keeps its entry.
\<close>

theorem parse_body_groups_by_barcode:
  assumes "\<forall>r \<in> set rs. well_formed_record r"
  shows "\<exists>self'. parseBUS self (concat (map record_block rs)) = Inr (self', []) \<and>
           (\<forall>b. map_of (bcd self') b =
                  (if b \<in> record_key ` set rs
                   then Some (lookup_list (bcd self) b
                              @ map record_entry (filter (\<lambda>r. record_key r = b) rs))
                   else map_of (bcd self) b))"
proof -
  have len: "\<forall>c \<in> set (map record_block rs). length c = 32"
    by (simp add: length_record_block)
  have dec: "map decode_block (map record_block rs) = map (\<lambda>r. (record_key r, record_entry r)) rs"
    using assms by (simp add: decode_record_block)
  have sel: "map snd (filter (\<lambda>e. fst e = b) (map (\<lambda>r. (record_key r, record_entry r)) rs))
             = map record_entry (filter (\<lambda>r. record_key r = b) rs)" for b
    by (induction rs) simp_all
  have img: "fst ` set (map (\<lambda>r. (record_key r, record_entry r)) rs) = record_key ` set rs"
    by (simp add: image_image)
  let ?d = "add_all (bcd self) (map (\<lambda>r. (record_key r, record_entry r)) rs)"
  have "parseBUS self (concat (map record_block rs)) =
        Inr (self\<lparr>n_entries := n_entries self + int (length (map record_block rs)) + 1,
                  bcd := add_all (bcd self) (map decode_block (map record_block rs))\<rparr>, [])"
    by (rule parseBUS_blocks[OF len])
  then have p: "parseBUS self (concat (map record_block rs)) =
        Inr (self\<lparr>n_entries := n_entries self + int (length (map record_block rs)) + 1,
                  bcd := ?d\<rparr>, [])"
    by (simp only: dec)
  have m: "map_of ?d b =
       (if b \<in> record_key ` set rs
        then Some (lookup_list (bcd self) b @ map record_entry (filter (\<lambda>r. record_key r = b) rs))
        else map_of (bcd self) b)" for b
    by (simp only: map_of_add_all sel img)
  show ?thesis
    by (rule exI[of _ "self\<lparr>n_entries := n_entries self + int (length (map record_block rs)) + 1,
                  bcd := ?d\<rparr>"]) (simp add: p m)
qed

theorem parse_body_groups_by_barcode_witness:
  "\<exists>self'. parseBUS BUSFIle_init
       (concat (map record_block [(7, 1, 2, 3, 4, 0), (5, 9, 2, 1, 0, 0), (7, 5, 6, 7, 8, 0)]))
       = Inr (self', []) \<and>
     map_of (bcd self') 7 = Some [(1, 2, 3, 4), (5, 6, 7, 8)] \<and>
     map_of (bcd self') 5 = Some [(9, 2, 1, 0)] \<and>
     map_of (bcd self') 6 = None"
proof -
  have wf: "\<forall>r \<in> set [(7, 1, 2, 3, 4, 0), (5, 9, 2, 1, 0, 0), (7, 5, 6, 7, 8, 0)]. well_formed_record r"
    by (simp add: well_formed_record_def u32_def u64_def)
  from parse_body_groups_by_barcode[OF wf, of BUSFIle_init] obtain self' where
    p: "parseBUS BUSFIle_init
          (concat (map record_block [(7, 1, 2, 3, 4, 0), (5, 9, 2, 1, 0, 0), (7, 5, 6, 7, 8, 0)]))
        = Inr (self', [])"
    and m: "\<And>b. map_of (bcd self') b =
       (if b \<in> record_key ` set [(7, 1, 2, 3, 4, 0), (5, 9, 2, 1, 0, 0), (7, 5, 6, 7, 8, 0)]
        then Some (lookup_list (bcd BUSFIle_init) b
               @ map record_entry (filter (\<lambda>r. record_key r = b)
                    [(7, 1, 2, 3, 4, 0), (5, 9, 2, 1, 0, 0), (7, 5, 6, 7, 8, 0)]))
        else map_of (bcd BUSFIle_init) b)"
    by blast
  have "map_of (bcd self') 7 = Some [(1, 2, 3, 4), (5, 6, 7, 8)]"
    by (simp add: m record_key_def record_entry_def lookup_list_def BUSFIle_init_def)
  moreover have "map_of (bcd self') 5 = Some [(9, 2, 1, 0)]"
    by (simp add: m record_key_def record_entry_def lookup_list_def BUSFIle_init_def)
  moreover have "map_of (bcd self') 6 = None"
    by (simp add: m record_key_def record_entry_def lookup_list_def BUSFIle_init_def)
  ultimately show ?thesis using p by blast
qed

text \<open>
  C6. For a file of at least four bytes whose first four bytes are not the magic tag,
  \<^verbatim>\<open>parseHeader\<close> stores these four bytes in \<^verbatim>\<open>format\<close>, consumes nothing more
  and changes no other attribute, and \<^verbatim>\<open>read\<close> returns that instance without
  calling \<^verbatim>\<open>parseBUS\<close>: version, lengths and text keep their initial values,
  the record map is empty, the entry counter is 0, and one line is printed. Nothing is
  raised.
\<close>

theorem unknown_magic_stops:
  assumes "files p = Some inp" and "4 \<le> length inp" and "take 4 inp \<noteq> BUS_magic"
  shows "parseHeader (BUSFIle_init\<lparr>in_file_path := Some p\<rparr>) inp =
           Inr (BUSFIle_init\<lparr>in_file_path := Some p, format := Bytes (take 4 inp)\<rparr>,
                drop 4 inp, []) \<and>
         BUSFIle_read files p =
           Inr (BUSFIle_init\<lparr>in_file_path := Some p, format := Bytes (take 4 inp)\<rparr>,
                [PrintNotImplemented (Bytes (take 4 inp))])"
proof -
  have h: "parseHeader (BUSFIle_init\<lparr>in_file_path := Some p\<rparr>) inp =
           Inr (BUSFIle_init\<lparr>in_file_path := Some p, format := Bytes (take 4 inp)\<rparr>,
                drop 4 inp, [])"
    using assms(2,3) by (simp add: parseHeader_def read_bytes_def unpack_s_def)
  show ?thesis
    unfolding BUSFIle_read_def Let_def h using assms(1) h by simp
qed

theorem unknown_magic_stops_witness:
  "BUSFIle_read [''f'' \<mapsto> [88, 88, 88, 88, 1, 2, 3]] ''f'' =
     Inr (BUSFIle_init\<lparr>in_file_path := Some ''f'', format := Bytes [88, 88, 88, 88]\<rparr>,
          [PrintNotImplemented (Bytes [88, 88, 88, 88])])"
  using unknown_magic_stops[of "[''f'' \<mapsto> [88, 88, 88, 88, 1, 2, 3]]" "''f''" "[88, 88, 88, 88, 1, 2, 3]"]
  by (simp add: BUS_magic_def)

text \<open>
  C7, on the code. The counter is incremented after every call of \<^verbatim>\<open>inf.read(32)\<close>,
  the last one included, which returns no bytes. A body of one well-formed record on a
  fresh instance leaves \<^verbatim>\<open>n_entries\<close> at 2, not at 1.
\<close>

theorem n_entries_counts_final_read:
  "parseBUS BUSFIle_init
     [5, 0, 0, 0, 0, 0, 0, 0, 9, 0, 0, 0, 0, 0, 0, 0, 2, 0, 0, 0, 1, 0, 0, 0,
      0, 0, 0, 0, 0, 0, 0, 0]
   = Inr (BUSFIle_init\<lparr>bcd := [(5, [(9, 2, 1, 0)])], n_entries := 2\<rparr>, [])"
  by code_simp

text \<open>
  C9. For a header whose \<open>version\<close>, \<open>bclen\<close> and \<open>umilen\<close> are in the unsigned
  32-bit range, \<^verbatim>\<open>writeHeader\<close> appends to the stream exactly the four magic bytes,
  then \<open>version\<close>, \<open>bclen\<close>, \<open>umilen\<close> and the byte length of the payload, each as
  four little-endian bytes, then the payload itself. The payload of a text that is a
  byte string \<open>b\<close> is \<open>b\<close>, byte for byte; the payload of a text that is a
  \<^verbatim>\<open>str\<close> is its UTF-8 encoding, which for a string of code points below 128 is the
  list of these code points. The payload is shorter than \<open>2^32\<close> bytes. The length
  written is that of the payload: the attribute \<^verbatim>\<open>textlen\<close> has no influence on
  what is written.
\<close>

theorem writeHeader_layout:
  assumes "u32 (version self)" and "u32 (bclen self)" and "u32 (umilen self)"
    and "text_attr self = Bytes b \<and> payload = b
         \<or> text_attr self = Str s \<and> payload = encode_utf8 s"
    and "length payload < 2 ^ 32"
  shows "writeHeader self outf =
           Inr (outf @ [66, 85, 83, 0] @ u32_le (version self) @ u32_le (bclen self)
                @ u32_le (umilen self) @ u32_le (int (length payload)) @ payload) \<and>
         writeHeader (self\<lparr>textlen := t\<rparr>) outf = writeHeader self outf \<and>
         ((\<forall>c \<in> set s. (of_char c :: nat) < 128) \<longrightarrow>
            encode_utf8 s = map (\<lambda>c. of_nat (of_char c)) s)"
proof -
  have tb: "text_bytes (text_attr self) = payload"
    using assms(4) by (auto simp: text_bytes_def)
  have l: "u32 (int (length payload))"
    using assms(5) by (simp add: u32_def)
  have p: "pack_IIII (version self) (bclen self) (umilen self) (int (length payload)) =
           Inr (u32_le (version self) @ u32_le (bclen self) @ u32_le (umilen self)
                @ u32_le (int (length payload)))"
    using pack_IIII_ok[OF assms(1-3) l] by (simp only: le_bytes_4)
  have w: "writeHeader self outf =
           Inr (outf @ [66, 85, 83, 0] @ u32_le (version self) @ u32_le (bclen self)
                @ u32_le (umilen self) @ u32_le (int (length payload)) @ payload)"
    by (simp add: writeHeader_def Let_def tb p BUS_magic_def)
  have st: "writeHeader (self\<lparr>textlen := t\<rparr>) outf = writeHeader self outf"
    by (simp add: writeHeader_def)
  have ascii: "encode_utf8 s = map (\<lambda>c. of_nat (of_char c)) s"
    if "\<forall>c \<in> set s. (of_char c :: nat) < 128"
    using that by (induction s) (simp_all add: encode_utf8_def Let_def)
  from w st ascii show ?thesis by blast
qed

theorem writeHeader_layout_witness:
  "writeHeader (BUSFIle_init\<lparr>version := 1, bclen := 16, umilen := 12, textlen := 99,
                               text_attr := Bytes [104, 105, 0, 255]\<rparr>) [7] =
     Inr [7, 66, 85, 83, 0, 1, 0, 0, 0, 16, 0, 0, 0, 12, 0, 0, 0, 4, 0, 0, 0, 104, 105, 0, 255] \<and>
   writeHeader (BUSFIle_init\<lparr>version := 258, text_attr := Str [CHR ''h'', CHR 0xE9]\<rparr>) [] =
     Inr [66, 85, 83, 0, 2, 1, 0, 0, 0, 0, 0, 0, 0, 0, 0, 0, 3, 0, 0, 0, 104, 195, 169]"
proof -
  let ?c = "BUSFIle_init\<lparr>version := 1, bclen := 16, umilen := 12, textlen := 99,
                               text_attr := Bytes [104, 105, 0, 255]\<rparr>"
  let ?d = "BUSFIle_init\<lparr>version := 258, text_attr := Str [CHR ''h'', CHR 0xE9]\<rparr>"
  have hc: "u32 (version ?c)" "u32 (bclen ?c)" "u32 (umilen ?c)"
    "text_attr ?c = Bytes [104, 105, 0, 255] \<and> [104, 105, 0, 255] = [104, 105, 0, 255 :: byte]
     \<or> text_attr ?c = Str [] \<and> [104, 105, 0, 255] = encode_utf8 []"
    "length [104, 105, 0, 255 :: byte] < 2 ^ 32"
    by (simp_all add: BUSFIle_init_def u32_def)
  have e: "encode_utf8 [CHR ''h'', CHR 0xE9] = [104, 195, 169]"
    by (simp add: encode_utf8_def)
  have hd: "u32 (version ?d)" "u32 (bclen ?d)" "u32 (umilen ?d)"
    "text_attr ?d = Bytes [] \<and> [104, 195, 169] = ([] :: byte list)
     \<or> text_attr ?d = Str [CHR ''h'', CHR 0xE9] \<and> [104, 195, 169] = encode_utf8 [CHR ''h'', CHR 0xE9]"
    "length [104, 195, 169 :: byte] < 2 ^ 32"
    by (simp_all add: BUSFIle_init_def u32_def e)
  from writeHeader_layout[OF hc, of "[7]"] writeHeader_layout[OF hd, of "[]"]
  show ?thesis
    by (simp add: u32_le_def BUSFIle_init_def)
qed

end
